theory Spec2Isabelle
  imports Main "HOL-Library.Word"
begin

unbundle bit_operations_syntax

section \<open>The streaming chat client of SSU RAG (ChatInterface)\<close>

text \<open>
  The component keeps the transcript in React state and, for every query, reads
  a stream of server-sent frames into it. The embedding follows the component
  function by function. A call \<^verbatim>\<open>setMessages(f)\<close> is the state passed through \<open>f\<close>;
  what the browser supplies (\<^verbatim>\<open>JSON.parse\<close>, the \<^verbatim>\<open>TextDecoder\<close>, the clock, the
  network) is a parameter of the functions that use it.
\<close>

subsection \<open>JavaScript strings\<close>

text \<open>A JavaScript string is a sequence of 16-bit code units.\<close>

type_synonym byte = "8 word"
type_synonym jsstring = "16 word list"

definition js :: "string \<Rightarrow> jsstring" where
  "js s = map of_char s"

text \<open>
  The code units \<^verbatim>\<open>String.prototype.trim\<close> removes: WhiteSpace and LineTerminator of
  ECMAScript (tab, LF, VT, FF, CR, space, NBSP, U+1680, U+2000 to U+200A, U+2028,
  U+2029, U+202F, U+205F, U+3000, U+FEFF).
\<close>

definition is_ws :: "16 word \<Rightarrow> bool" where
  "is_ws c = (c \<in> set [9, 10, 11, 12, 13, 32, 160, 5760, 8232, 8233, 8239, 8287, 12288, 65279]
              \<or> (8192 \<le> c \<and> c \<le> 8202))"

definition trim :: "jsstring \<Rightarrow> jsstring" where
  "trim s = rev (dropWhile is_ws (rev (dropWhile is_ws s)))"

definition startsWith :: "jsstring \<Rightarrow> jsstring \<Rightarrow> bool" where
  "startsWith s p = (take (length p) s = p)"

text \<open>
  \<^verbatim>\<open>s.indexOf(p)\<close>: the first position where \<open>p\<close> occurs in \<open>s\<close>; \<open>None\<close> is the
  source's \<open>-1\<close>.
\<close>

fun indexOf :: "jsstring \<Rightarrow> jsstring \<Rightarrow> nat option" where
  "indexOf [] p = (if p = [] then Some 0 else None)"
| "indexOf (c # cs) p =
     (if startsWith (c # cs) p then Some 0 else map_option Suc (indexOf cs p))"

text \<open>The frame boundary \<^verbatim>\<open>'\n\n'\<close> and the payload marker \<^verbatim>\<open>'data: '\<close>.\<close>

definition boundary :: jsstring where
  "boundary = [10, 10]"

definition marker :: jsstring where
  "marker = js ''data: ''"

subsection \<open>JavaScript values\<close>

text \<open>
  What \<^verbatim>\<open>JSON.parse\<close> can return, and \<^verbatim>\<open>undefined\<close> for a property that is not there.
  A number is its IEEE 754 binary64 bit pattern; an object is the list of its own
  properties, each name once.
\<close>

datatype jsval =
    JUndefined
  | JNull
  | JBool bool
  | JNum "64 word"
  | JStr jsstring
  | JArr "jsval list"
  | JObj "(jsstring \<times> jsval) list"

datatype js_error = SyntaxError | TypeError | NetworkError | NoBodyError | ReadError

text \<open>ToBoolean: false for \<open>undefined\<close>, \<open>null\<close>, \<open>false\<close>, \<open>+0\<close>, \<open>-0\<close>, NaN and \<open>''\<close>.\<close>

definition num_falsy :: "64 word \<Rightarrow> bool" where
  "num_falsy w = (w AND 0x7FFFFFFFFFFFFFFF = 0
     \<or> (w AND 0x7FF0000000000000 = 0x7FF0000000000000 \<and> w AND 0x000FFFFFFFFFFFFF \<noteq> 0))"

fun truthy :: "jsval \<Rightarrow> bool" where
  "truthy JUndefined = False"
| "truthy JNull = False"
| "truthy (JBool b) = b"
| "truthy (JNum w) = (\<not> num_falsy w)"
| "truthy (JStr s) = (s \<noteq> [])"
| "truthy (JArr xs) = True"
| "truthy (JObj ps) = True"

text \<open>\<^verbatim>\<open>a || b\<close>\<close>

definition js_or :: "jsval \<Rightarrow> jsval \<Rightarrow> jsval" where
  "js_or a b = (if truthy a then a else b)"

text \<open>
  Reading one of the properties \<open>type\<close>, \<open>content\<close>, \<open>answer\<close>, \<open>sources\<close>: a
  \<open>TypeError\<close> on \<open>null\<close> and \<open>undefined\<close>, the own property of an object, and
  \<open>undefined\<close> on everything else (no prototype has a property of these names).
\<close>

fun field :: "jsval \<Rightarrow> jsstring \<Rightarrow> jsval" where
  "field (JObj ps) k = (case map_of ps k of None \<Rightarrow> JUndefined | Some v \<Rightarrow> v)"
| "field v k = JUndefined"

fun getprop :: "jsval \<Rightarrow> jsstring \<Rightarrow> js_error + jsval" where
  "getprop JUndefined k = Inl TypeError"
| "getprop JNull k = Inl TypeError"
| "getprop v k = Inr (field v k)"

subsection \<open>The browser\<close>

text \<open>
  The platform functions the component calls:
  \<^item> \<open>json_parse\<close> is \<^verbatim>\<open>JSON.parse\<close>, \<open>None\<close> when it throws a \<open>SyntaxError\<close>;
  \<^item> \<open>decoder_init\<close> and \<open>decode_byte\<close> are the \<^verbatim>\<open>TextDecoder('utf-8')\<close>: the
    state of a new decoder, and what one more byte does to the state together
    with the code units it emits (a decoder called with \<^verbatim>\<open>{stream: true}\<close> handles
    its input byte by byte and keeps its state between calls);
  \<^item> \<open>plus_other\<close> is the operator \<^verbatim>\<open>+\<close> on operands that are not both strings
    (number formatting and floating-point addition). It always gives a value:
    the one case in which \<^verbatim>\<open>+\<close> throws, an object operand whose \<open>toString\<close> and
    \<open>valueOf\<close> are both not callable, is outside the model.
\<close>

record 'd browser =
  json_parse :: "jsstring \<Rightarrow> jsval option"
  decoder_init :: 'd
  decode_byte :: "'d \<Rightarrow> byte \<Rightarrow> 'd \<times> jsstring"
  plus_other :: "jsval \<Rightarrow> jsval \<Rightarrow> jsval"

fun js_plus :: "'d browser \<Rightarrow> jsval \<Rightarrow> jsval \<Rightarrow> jsval" where
  "js_plus P (JStr a) (JStr b) = JStr (a @ b)"
| "js_plus P a b = plus_other P a b"

text \<open>\<^verbatim>\<open>decoder.decode(value, {stream: true})\<close> on one chunk.\<close>

fun decode :: "'d browser \<Rightarrow> 'd \<Rightarrow> byte list \<Rightarrow> 'd \<times> jsstring" where
  "decode P d [] = (d, [])"
| "decode P d (b # bs) =
     (let (d1, s) = decode_byte P d b; (d2, t) = decode P d1 bs in (d2, s @ t))"

subsection \<open>Messages\<close>

datatype role = User | Assistant

text \<open>
  A message of the transcript. \<open>msg_id\<close> and \<open>msg_text\<close> are the source's \<open>id\<close> and
  \<open>text\<close>; \<open>sources\<close> is \<open>JUndefined\<close> on a message built without the field.
\<close>

record message =
  msg_id :: int
  msg_text :: jsval
  role :: role
  sources :: jsval
  timestamp :: int

subsection \<open>Applying one event\<close>

definition applyToken :: "'d browser \<Rightarrow> int \<Rightarrow> jsval \<Rightarrow> message list \<Rightarrow> message list" where
  "applyToken P aiId token prev =
     map (\<lambda>m. if msg_id m = aiId
              then m\<lparr>msg_text := js_plus P (js_or (msg_text m) (JStr [])) token\<rparr>
              else m) prev"

definition applyMeta :: "int \<Rightarrow> jsval \<Rightarrow> message list \<Rightarrow> message list" where
  "applyMeta aiId meta prev =
     (if truthy (field meta (js ''sources''))
      then map (\<lambda>m. if msg_id m = aiId then m\<lparr>sources := field meta (js ''sources'')\<rparr> else m) prev
      else prev)"

text \<open>The final branch of the dispatch (the source has it inline).\<close>

definition applyFinal :: "int \<Rightarrow> jsval \<Rightarrow> message list \<Rightarrow> message list" where
  "applyFinal aiId evt prev =
     map (\<lambda>m. if msg_id m = aiId
              then m\<lparr>msg_text := field evt (js ''answer''),
                     sources := js_or (field evt (js ''sources'')) (sources m)\<rparr>
              else m) prev"

text \<open>
  The body of the \<^verbatim>\<open>try\<close> after \<^verbatim>\<open>JSON.parse\<close>: the first read of \<open>evt.type\<close> throws
  on \<open>null\<close>; after it no read can throw.
\<close>

definition dispatch :: "'d browser \<Rightarrow> int \<Rightarrow> jsval \<Rightarrow> message list \<Rightarrow> js_error + message list" where
  "dispatch P aiId evt prev =
     (case getprop evt (js ''type'') of
        Inl e \<Rightarrow> Inl e
      | Inr ty \<Rightarrow>
          if ty = JStr (js ''token'') \<and> truthy (field evt (js ''content''))
          then Inr (applyToken P aiId (field evt (js ''content'')) prev)
          else if ty = JStr (js ''meta'')
          then Inr (applyMeta aiId evt prev)
          else if ty = JStr (js ''final'') \<and> truthy (field evt (js ''answer''))
          then Inr (applyFinal aiId evt prev)
          else Inr prev)"

text \<open>
  One non-empty trimmed frame \<open>raw\<close>: only a frame that starts with the marker is
  parsed, and whatever the \<^verbatim>\<open>try\<close> throws is swallowed by the empty \<^verbatim>\<open>catch\<close>.
\<close>

definition tryParse :: "'d browser \<Rightarrow> int \<Rightarrow> jsstring \<Rightarrow> message list \<Rightarrow> js_error + message list" where
  "tryParse P aiId jsonStr prev =
     (case json_parse P jsonStr of
        None \<Rightarrow> Inl SyntaxError
      | Some evt \<Rightarrow> dispatch P aiId evt prev)"

definition processFrame :: "'d browser \<Rightarrow> int \<Rightarrow> jsstring \<Rightarrow> message list \<Rightarrow> message list" where
  "processFrame P aiId raw prev =
     (if startsWith raw marker
      then (case tryParse P aiId (drop 6 raw) prev of Inl e \<Rightarrow> prev | Inr next \<Rightarrow> next)
      else prev)"

lemma indexOf_bound: "indexOf s p = Some i \<Longrightarrow> i + length p \<le> length s"
proof (induction s arbitrary: i)
  case Nil
  then show ?case by (simp split: if_splits)
next
  case (Cons c cs)
  show ?case
  proof (cases "startsWith (c # cs) p")
    case True
    then have "length (take (length p) (c # cs)) = length p"
      by (simp only: startsWith_def)
    then have "length p \<le> length (c # cs)"
      by (simp only: length_take)
    with True Cons.prems show ?thesis by simp
  next
    case False
    with Cons.prems obtain j where "indexOf cs p = Some j" "i = Suc j" by auto
    with Cons.IH show ?thesis by auto
  qed
qed

subsection \<open>The framer\<close>

text \<open>
  The inner loop of the read loop: while the buffer holds a boundary, cut the
  text before it off, trim it, and process it unless it is empty. Returns the
  buffer that is left and the transcript.
\<close>

function drain :: "'d browser \<Rightarrow> int \<Rightarrow> jsstring \<Rightarrow> message list \<Rightarrow> jsstring \<times> message list" where
  "drain P aiId buffer prev =
     (case indexOf buffer boundary of
        None \<Rightarrow> (buffer, prev)
      | Some idx \<Rightarrow>
          (let raw = trim (take idx buffer); rest = drop (idx + 2) buffer
           in if raw = [] then drain P aiId rest prev
              else drain P aiId rest (processFrame P aiId raw prev)))"
  by pat_completeness auto
termination
  by (relation "measure (\<lambda>(P, aiId, buffer, prev). length buffer)")
     (auto dest: indexOf_bound simp: boundary_def)

declare drain.simps [simp del]

subsection \<open>The read loop\<close>

text \<open>
  The body of a response as the reader delivers it: the chunks, and how the
  reading ends, with \<^verbatim>\<open>{done: true}\<close> or with a rejected \<^verbatim>\<open>read()\<close>. The stream is
  finite: a reader that never answers is not modelled.
\<close>

datatype stream_end = Done | Broken

text \<open>
  The outer loop, with the decoder's state, the buffer and the transcript as its
  state. It returns the error it ends with, if any, and the transcript at that
  moment: what is left in the buffer is dropped.
\<close>

fun readLoop :: "'d browser \<Rightarrow> int \<Rightarrow> byte list list \<Rightarrow> stream_end \<Rightarrow> 'd \<Rightarrow> jsstring \<Rightarrow>
    message list \<Rightarrow> js_error option \<times> message list" where
  "readLoop P aiId [] e d buffer prev =
     ((case e of Done \<Rightarrow> None | Broken \<Rightarrow> Some ReadError), prev)"
| "readLoop P aiId (v # vs) e d buffer prev =
     (let (d1, s) = decode P d v;
          (buffer1, next) = drain P aiId (buffer @ s) prev
      in readLoop P aiId vs e d1 buffer1 next)"

text \<open>
  The frames the two loops hand to \<open>processFrame\<close>, in the order in which they do:
  the loops again, without the transcript. \<open>cut\<close> is the inner loop and returns the
  frames and the buffer that is left; \<open>readFrames\<close> is the outer loop.
\<close>

function cut :: "jsstring \<Rightarrow> jsstring list \<times> jsstring" where
  "cut buffer =
     (case indexOf buffer boundary of
        None \<Rightarrow> ([], buffer)
      | Some idx \<Rightarrow>
          (let raw = trim (take idx buffer); (fs, rest) = cut (drop (idx + 2) buffer)
           in (if raw = [] then fs else raw # fs, rest)))"
  by pat_completeness auto
termination
  by (relation "measure length") (auto dest: indexOf_bound simp: boundary_def)

declare cut.simps [simp del]

fun readFrames :: "'d browser \<Rightarrow> byte list list \<Rightarrow> 'd \<Rightarrow> jsstring \<Rightarrow> jsstring list" where
  "readFrames P [] d buffer = []"
| "readFrames P (v # vs) d buffer =
     (let (d1, s) = decode P d v; (fs, rest) = cut (buffer @ s)
      in fs @ readFrames P vs d1 rest)"

subsection \<open>Sending a message\<close>

text \<open>
  What \<^verbatim>\<open>fetch\<close> gives: a rejection, a response without a body, or a body.
\<close>

datatype response = Rejected | NoBody | Body "byte list list" stream_end

text \<open>
  The readings of the clock, in the order of the source: \<^verbatim>\<open>Date.now()\<close> and
  \<^verbatim>\<open>new Date()\<close> for the user message, for the placeholder and for the error
  message.
\<close>

record clock =
  now_user :: int
  date_user :: int
  now_ai :: int
  date_ai :: int
  now_error :: int
  date_error :: int

record chat =
  messages :: "message list"
  isLoading :: bool

definition userMessage :: "clock \<Rightarrow> jsstring \<Rightarrow> message" where
  "userMessage clk txt =
     \<lparr>msg_id = now_user clk, msg_text = JStr txt, role = User, sources = JUndefined,
      timestamp = date_user clk\<rparr>"

definition placeholder :: "clock \<Rightarrow> message" where
  "placeholder clk =
     \<lparr>msg_id = now_ai clk + 1, msg_text = JStr [], role = Assistant, sources = JArr [],
      timestamp = date_ai clk\<rparr>"

text \<open>The fixed text of the error message, as code units.\<close>

definition errorText :: jsstring where
  "errorText = [50724, 47448, 44032, 32, 48156, 49373, 54664, 49845, 45768, 45796, 46, 32,
                45796, 49884, 32, 49884, 46020, 54644, 51452, 49464, 50836, 46]"

definition errorMessage :: "clock \<Rightarrow> message" where
  "errorMessage clk =
     \<lparr>msg_id = now_error clk + 1, msg_text = JStr errorText, role = Assistant,
      sources = JUndefined, timestamp = date_error clk\<rparr>"

text \<open>
  The transcript when \<^verbatim>\<open>fetch\<close> is called: \<^verbatim>\<open>setMessages(allMessages)\<close> with the user
  message after the \<open>messages\<close> of the closure, then the placeholder appended.
\<close>

definition eagerAppends :: "clock \<Rightarrow> message list \<Rightarrow> jsstring \<Rightarrow> message list" where
  "eagerAppends clk msgs txt = (msgs @ [userMessage clk txt]) @ [placeholder clk]"

text \<open>
  From \<^verbatim>\<open>await fetch\<close> to the end of the \<^verbatim>\<open>try\<close> block. The request that is sent
  (query, history, session id) has no part in what the component does next; the
  response is an input.
\<close>

definition awaitStream :: "'d browser \<Rightarrow> int \<Rightarrow> response \<Rightarrow> message list \<Rightarrow>
    js_error option \<times> message list" where
  "awaitStream P aiId res prev =
     (case res of
        Rejected \<Rightarrow> (Some NetworkError, prev)
      | NoBody \<Rightarrow> (Some NoBodyError, prev)
      | Body chunks e \<Rightarrow> readLoop P aiId chunks e (decoder_init P) [] prev)"

text \<open>
  \<^verbatim>\<open>sendMessage(text)\<close>, called in the state \<open>st\<close>: the \<open>messages\<close> of its closure are
  those of the state it is called in (one send at a time). A blank text returns
  at once; otherwise the \<^verbatim>\<open>catch\<close> block appends the error message to the
  transcript as the \<^verbatim>\<open>try\<close> block left it, and \<^verbatim>\<open>finally\<close> clears \<open>isLoading\<close>.
\<close>

definition sendMessage :: "'d browser \<Rightarrow> clock \<Rightarrow> response \<Rightarrow> chat \<Rightarrow> jsstring \<Rightarrow> chat" where
  "sendMessage P clk res st txt =
     (if trim txt = [] then st
      else
        (let (err, cur) = awaitStream P (now_ai clk + 1) res (eagerAppends clk (messages st) txt)
         in \<lparr>messages = (case err of None \<Rightarrow> cur | Some e \<Rightarrow> cur @ [errorMessage clk]),
             isLoading = False\<rparr>))"

text \<open>
  The states in which \<open>sendMessage\<close> waits, in order. \<open>readAwaits\<close> is the read loop
  again, giving the transcript at every \<^verbatim>\<open>await reader.read()\<close>; \<open>sendAwaits\<close> gives the
  state of the component at \<^verbatim>\<open>await fetch\<close> and then at every \<^verbatim>\<open>await reader.read()\<close>
  (\<open>isLoading\<close> has been set by then and is cleared only in \<^verbatim>\<open>finally\<close>). A blank text
  returns before any \<^verbatim>\<open>await\<close>.
\<close>

fun readAwaits :: "'d browser \<Rightarrow> int \<Rightarrow> byte list list \<Rightarrow> 'd \<Rightarrow> jsstring \<Rightarrow> message list \<Rightarrow>
    message list list" where
  "readAwaits P aiId [] d buffer prev = [prev]"
| "readAwaits P aiId (v # vs) d buffer prev =
     prev # (let (d1, s) = decode P d v;
                 (buffer1, next) = drain P aiId (buffer @ s) prev
             in readAwaits P aiId vs d1 buffer1 next)"

definition sendAwaits :: "'d browser \<Rightarrow> clock \<Rightarrow> response \<Rightarrow> chat \<Rightarrow> jsstring \<Rightarrow> chat list" where
  "sendAwaits P clk res st txt =
     (if trim txt = [] then []
      else \<lparr>messages = eagerAppends clk (messages st) txt, isLoading = True\<rparr> #
           (case res of
              Body chunks e \<Rightarrow>
                map (\<lambda>m. \<lparr>messages = m, isLoading = True\<rparr>)
                  (readAwaits P (now_ai clk + 1) chunks (decoder_init P) []
                     (eagerAppends clk (messages st) txt))
            | _ \<Rightarrow> []))"

text \<open>The responses after which the \<^verbatim>\<open>catch\<close> block runs.\<close>

fun fails :: "response \<Rightarrow> bool" where
  "fails Rejected = True"
| "fails NoBody = True"
| "fails (Body chunks e) = (e = Broken)"

subsection \<open>The session id\<close>

text \<open>
  \<^verbatim>\<open>localStorage\<close> is a map from keys to strings (\<^verbatim>\<open>getItem\<close> gives \<open>null\<close> for a key
  that is not there). The sources of a new id: \<open>randomUUID\<close> is what
  \<^verbatim>\<open>window.crypto.randomUUID()\<close> returns, \<open>None\<close> where the browser has none, and
  \<open>random36\<close> is the string \<^verbatim>\<open>Math.random().toString(36)\<close>.
\<close>

definition storageKey :: jsstring where
  "storageKey = js ''ssu_rag_session_id''"

record id_source =
  randomUUID :: "jsstring option"
  random36 :: jsstring

definition newSessionId :: "id_source \<Rightarrow> jsstring" where
  "newSessionId src = (case randomUUID src of Some u \<Rightarrow> u | None \<Rightarrow> drop 2 (random36 src))"

definition initSessionId :: "id_source \<Rightarrow> (jsstring \<rightharpoonup> jsstring) \<Rightarrow>
    jsstring \<times> (jsstring \<rightharpoonup> jsstring)" where
  "initSessionId src ls =
     (case ls storageKey of
        Some (c # cs) \<Rightarrow> (c # cs, ls)
      | _ \<Rightarrow> (newSessionId src, ls(storageKey \<mapsto> newSessionId src)))"

subsection \<open>The wire format\<close>

text \<open>
  The backend writes one frame as \<^verbatim>\<open>data: <json>\n\n\<close>. A payload as a JSON
  serialiser writes it is not empty, has no line feed in it and does not end in
  white space.
\<close>

definition frame :: "jsstring \<Rightarrow> jsstring" where
  "frame payload = marker @ payload @ boundary"

definition wire_payload :: "jsstring \<Rightarrow> bool" where
  "wire_payload j = (j \<noteq> [] \<and> 10 \<notin> set j \<and> \<not> is_ws (last j))"

text \<open>
  The payload \<open>j\<close> is a token event with the string \<open>c\<close> as its content; the payload
  \<open>j\<close> is a final event that carries the answer \<open>a\<close>, a truthy value (for a string:
  not empty), and has \<open>srcs\<close> as its \<open>sources\<close> (\<open>JUndefined\<close> when it has none).
\<close>

definition tokenFrame :: "'d browser \<Rightarrow> jsstring \<Rightarrow> jsstring \<Rightarrow> bool" where
  "tokenFrame P j c =
     (wire_payload j \<and>
      (case json_parse P j of
         None \<Rightarrow> False
       | Some evt \<Rightarrow> getprop evt (js ''type'') = Inr (JStr (js ''token''))
                     \<and> field evt (js ''content'') = JStr c))"

definition finalFrame :: "'d browser \<Rightarrow> jsstring \<Rightarrow> jsval \<Rightarrow> jsval \<Rightarrow> bool" where
  "finalFrame P j a srcs =
     (wire_payload j \<and> truthy a \<and>
      (case json_parse P j of
         None \<Rightarrow> False
       | Some evt \<Rightarrow> getprop evt (js ''type'') = Inr (JStr (js ''final''))
                     \<and> field evt (js ''answer'') = a
                     \<and> field evt (js ''sources'') = srcs))"

subsection \<open>A browser to run the examples in\<close>

text \<open>
  The UTF-8 decoder of the Encoding Standard, as \<^verbatim>\<open>TextDecoder\<close> runs it: one byte
  at a time, with the code point under construction, the bytes seen and needed
  and the bounds of the next byte as its state; an ill-formed sequence gives
  U+FFFD, and a byte order mark at the start is dropped.
\<close>

record utf8 =
  code_point :: nat
  bytes_seen :: nat
  bytes_needed :: nat
  lower_boundary :: nat
  upper_boundary :: nat
  bom_seen :: bool

definition utf8_init :: utf8 where
  "utf8_init = \<lparr>code_point = 0, bytes_seen = 0, bytes_needed = 0, lower_boundary = 128,
                 upper_boundary = 191, bom_seen = False\<rparr>"

definition utf8_reset :: "utf8 \<Rightarrow> utf8" where
  "utf8_reset st = st\<lparr>code_point := 0, bytes_seen := 0, bytes_needed := 0,
                      lower_boundary := 128, upper_boundary := 191\<rparr>"

definition utf16 :: "nat \<Rightarrow> jsstring" where
  "utf16 cp = (if cp < 65536 then [of_nat cp]
               else [of_nat (55296 + (cp - 65536) div 1024), of_nat (56320 + (cp - 65536) mod 1024)])"

definition utf8_emit :: "utf8 \<Rightarrow> nat \<Rightarrow> utf8 \<times> jsstring" where
  "utf8_emit st cp =
     (utf8_reset st\<lparr>bom_seen := True\<rparr>,
      if \<not> bom_seen st \<and> cp = 65279 then [] else utf16 cp)"

definition utf8_lead :: "utf8 \<Rightarrow> nat \<Rightarrow> utf8 \<times> jsstring" where
  "utf8_lead st b =
     (if b \<le> 127 then utf8_emit st b
      else if 194 \<le> b \<and> b \<le> 223
      then (st\<lparr>bytes_needed := 1, code_point := b - 192\<rparr>, [])
      else if 224 \<le> b \<and> b \<le> 239
      then (st\<lparr>lower_boundary := (if b = 224 then 160 else 128),
                upper_boundary := (if b = 237 then 159 else 191),
                bytes_needed := 2, code_point := b - 224\<rparr>, [])
      else if 240 \<le> b \<and> b \<le> 244
      then (st\<lparr>lower_boundary := (if b = 240 then 144 else 128),
                upper_boundary := (if b = 244 then 143 else 191),
                bytes_needed := 3, code_point := b - 240\<rparr>, [])
      else utf8_emit st 65533)"

definition utf8_byte :: "utf8 \<Rightarrow> byte \<Rightarrow> utf8 \<times> jsstring" where
  "utf8_byte st w =
     (let b = unat w in
      if bytes_needed st = 0 then utf8_lead st b
      else if b < lower_boundary st \<or> upper_boundary st < b
      then (let (st1, s) = utf8_emit st 65533; (st2, t) = utf8_lead st1 b in (st2, s @ t))
      else if bytes_seen st + 1 \<noteq> bytes_needed st
      then (st\<lparr>lower_boundary := 128, upper_boundary := 191,
                code_point := code_point st * 64 + (b - 128),
                bytes_seen := bytes_seen st + 1\<rparr>, [])
      else utf8_emit st (code_point st * 64 + (b - 128)))"

text \<open>The wire text of the examples, as bytes and as code units.\<close>

definition ascii :: "string \<Rightarrow> byte list" where
  "ascii s = map of_char s"

definition tokenEvent :: "jsstring \<Rightarrow> jsval" where
  "tokenEvent c = JObj [(js ''type'', JStr (js ''token'')), (js ''content'', JStr c)]"

definition finalEvent :: "jsstring \<Rightarrow> jsval" where
  "finalEvent a = JObj [(js ''type'', JStr (js ''final'')), (js ''answer'', JStr a)]"

text \<open>
  \<^verbatim>\<open>JSON.parse\<close> on the payloads of the examples; every other string the examples
  hand to it is not JSON. The operands of \<^verbatim>\<open>+\<close> in the examples are strings.
\<close>

definition example_parse :: "jsstring \<Rightarrow> jsval option" where
  "example_parse = map_of
     [(js ''{\"type\":\"token\",\"content\":\"Hel\"}'', tokenEvent (js ''Hel'')),
      (js ''{\"type\":\"token\",\"content\":\"lo\"}'', tokenEvent (js ''lo'')),
      (js ''{\"type\":\"token\",\"content\":\"'' @ [50504] @ js ''\"}'', tokenEvent [50504]),
      (js ''{\"type\":\"final\",\"answer\":\"Hello!\"}'', finalEvent (js ''Hello!''))]"

definition example :: "utf8 browser" where
  "example = \<lparr>json_parse = example_parse, decoder_init = utf8_init, decode_byte = utf8_byte,
              plus_other = (\<lambda>a b. JUndefined)\<rparr>"

text \<open>A clock that stands still at 1000, and one that stands still at 1001.\<close>

definition clk0 :: clock where
  "clk0 = \<lparr>now_user = 1000, date_user = 1000, now_ai = 1000, date_ai = 1000,
           now_error = 1000, date_error = 1000\<rparr>"

definition clk1 :: clock where
  "clk1 = \<lparr>now_user = 1001, date_user = 1001, now_ai = 1001, date_ai = 1001,
           now_error = 1001, date_error = 1001\<rparr>"

text \<open>A later send: the clock has moved on, and moves between the readings.\<close>

definition clk2 :: clock where
  "clk2 = \<lparr>now_user = 1002, date_user = 1002, now_ai = 1003, date_ai = 1003,
           now_error = 1004, date_error = 1004\<rparr>"

definition chat0 :: chat where
  "chat0 = \<lparr>messages = [], isLoading = False\<rparr>"

text \<open>
  A stream of one token frame whose content is the Hangul syllable U+C548, three
  bytes in UTF-8, followed by the beginning of a frame that never ends.
\<close>

definition koreanPayload :: jsstring where
  "koreanPayload = js ''{\"type\":\"token\",\"content\":\"'' @ [50504] @ js ''\"}''"

definition koreanStream :: "byte list" where
  "koreanStream = ascii ''data: {\"type\":\"token\",\"content\":\"'' @ [0xEC, 0x95, 0x88]
     @ ascii ''\"}\<newline>\<newline>data: {\"ty''"

text \<open>The frames of scenario A of the specification, in two chunks.\<close>

definition helPayload :: jsstring where
  "helPayload = js ''{\"type\":\"token\",\"content\":\"Hel\"}''"

definition loPayload :: jsstring where
  "loPayload = js ''{\"type\":\"token\",\"content\":\"lo\"}''"

definition helloPayload :: jsstring where
  "helloPayload = js ''{\"type\":\"final\",\"answer\":\"Hello!\"}''"

definition tokenChunks :: "byte list list" where
  "tokenChunks = [ascii ''data: {\"type\":\"token\",\"content\":\"Hel\"}\<newline>\<newline>data: {\"type\":\"to'',
                  ascii ''ken\",\"content\":\"lo\"}\<newline>\<newline>'']"

definition finalChunk :: "byte list" where
  "finalChunk = ascii ''data: {\"type\":\"final\",\"answer\":\"Hello!\"}\<newline>\<newline>''"

text \<open>
  A stream with a truncated payload between two token frames; a frame with an
  \<^verbatim>\<open>event:\<close> line before its \<^verbatim>\<open>data:\<close> line; a stream whose last frame has no boundary
  after it.
\<close>

definition malformedChunks :: "byte list list" where
  "malformedChunks =
     [ascii ''data: {\"type\":\"token\",\"content\":\"Hel\"}\<newline>\<newline>data: {\"type\":\"tok\<newline>\<newline>data: {\"type\":\"token\",\"content\":\"lo\"}\<newline>\<newline>'']"

definition malformedRest :: jsstring where
  "malformedRest = js ''data: {\"type\":\"tok\<newline>\<newline>'' @ frame loPayload"

definition eventFrame :: jsstring where
  "eventFrame = js ''event: message\<newline>data: {\"type\":\"token\",\"content\":\"Hel\"}\<newline>\<newline>''"

definition unterminatedChunks :: "byte list list" where
  "unterminatedChunks =
     [ascii ''data: {\"type\":\"token\",\"content\":\"Hel\"}\<newline>\<newline>data: {\"type\":\"token\",\"content\":\"lo\"}'']"

text \<open>
  A browser without \<^verbatim>\<open>crypto.randomUUID\<close> in which \<^verbatim>\<open>Math.random()\<close> returns 0, and one
  in which it returns a number that base 36 writes as \<^verbatim>\<open>0.k3x9\<close>.
\<close>

definition zeroDraw :: id_source where
  "zeroDraw = \<lparr>randomUUID = None, random36 = js ''0''\<rparr>"

definition laterDraw :: id_source where
  "laterDraw = \<lparr>randomUUID = None, random36 = js ''0.k3x9''\<rparr>"

definition zeroFrameChunks :: "byte list list" where
  "zeroFrameChunks = [ascii ''data: {\"ty'', ascii ''pe\":'']"

lemmas example_simps = example_def example_parse_def tokenEvent_def finalEvent_def ascii_def
  js_def utf8_init_def utf8_byte_def utf8_lead_def utf8_emit_def utf8_reset_def utf16_def
  Let_def boundary_def marker_def startsWith_def trim_def is_ws_def clk0_def clk1_def chat0_def
  userMessage_def placeholder_def errorMessage_def eagerAppends_def
  processFrame_def tryParse_def dispatch_def applyToken_def applyFinal_def applyMeta_def
  js_or_def frame_def wire_payload_def tokenFrame_def finalFrame_def
  helPayload_def loPayload_def helloPayload_def

section \<open>Properties\<close>

subsection \<open>The framer and the read loop\<close>

lemma decode_append:
  "decode P d (a @ b) =
     (let (d1, s) = decode P d a; (d2, t) = decode P d1 b in (d2, s @ t))"
  by (induction a arbitrary: d) (simp_all add: split_beta Let_def)

lemma startsWith_append:
  "length p \<le> length s \<Longrightarrow> startsWith (s @ t) p = startsWith s p"
  by (simp add: startsWith_def)

lemma indexOf_append:
  "indexOf a p = Some i \<Longrightarrow> indexOf (a @ b) p = Some i"
proof (induction a arbitrary: i)
  case Nil
  then show ?case by (cases b) (simp_all add: startsWith_def split: if_splits)
next
  case (Cons c cs)
  show ?case
  proof (cases "startsWith (c # cs) p")
    case True
    then have "length (take (length p) (c # cs)) = length p"
      by (simp only: startsWith_def)
    then have "length p \<le> length (c # cs)"
      by (simp only: length_take)
    then have "startsWith ((c # cs) @ b) p" using True by (simp only: startsWith_append)
    with True Cons.prems show ?thesis by simp
  next
    case False
    with Cons.prems obtain j where j: "indexOf cs p = Some j" "i = Suc j" by auto
    from indexOf_bound [OF j(1)] have "length p \<le> length (c # cs)" by simp
    then have "startsWith ((c # cs) @ b) p = startsWith (c # cs) p"
      by (rule startsWith_append)
    with False j Cons.IH [OF j(1)] show ?thesis by simp
  qed
qed

lemma drain_None: "indexOf buffer boundary = None \<Longrightarrow> drain P aiId buffer prev = (buffer, prev)"
  by (simp add: drain.simps)

lemma drain_Some:
  "indexOf buffer boundary = Some idx \<Longrightarrow>
   drain P aiId buffer prev =
     drain P aiId (drop (idx + 2) buffer)
       (if trim (take idx buffer) = [] then prev
        else processFrame P aiId (trim (take idx buffer)) prev)"
  by (subst drain.simps) (simp add: Let_def)

lemma drain_append:
  "drain P aiId (a @ b) prev =
     (let (rest, next) = drain P aiId a prev in drain P aiId (rest @ b) next)"
proof (induction P aiId a prev rule: drain.induct)
  case (1 P aiId buffer prev)
  show ?case
  proof (cases "indexOf buffer boundary")
    case None
    then show ?thesis by (simp add: drain_None)
  next
    case (Some idx)
    from indexOf_bound [OF Some] have len: "idx + 2 \<le> length buffer"
      by (simp add: boundary_def)
    have ab: "indexOf (buffer @ b) boundary = Some idx"
      using Some by (rule indexOf_append)
    have tk: "take idx (buffer @ b) = take idx buffer" using len by simp
    have dr: "drop (idx + 2) (buffer @ b) = drop (idx + 2) buffer @ b" using len by simp
    let ?nx = "if trim (take idx buffer) = [] then prev
               else processFrame P aiId (trim (take idx buffer)) prev"
    have L: "drain P aiId (buffer @ b) prev = drain P aiId (drop (idx + 2) buffer @ b) ?nx"
      using drain_Some [OF ab, of P aiId prev] unfolding tk dr .
    have R: "drain P aiId buffer prev = drain P aiId (drop (idx + 2) buffer) ?nx"
      by (rule drain_Some [OF Some])
    have "drain P aiId (drop (idx + 2) buffer @ b) ?nx =
       (let (rest, next) = drain P aiId (drop (idx + 2) buffer) ?nx
        in drain P aiId (rest @ b) next)"
    proof (cases "trim (take idx buffer) = []")
      case True
      from "1.IH"(1) [OF Some refl refl True] True show ?thesis by simp
    next
      case False
      from "1.IH"(2) [OF Some refl refl False] False show ?thesis by simp
    qed
    then show ?thesis unfolding L R .
  qed
qed

lemma drain_rest:
  "drain P aiId buffer prev = (rest, next) \<Longrightarrow> indexOf rest boundary = None"
proof (induction P aiId buffer prev rule: drain.induct)
  case (1 P aiId buffer prev)
  show ?case
  proof (cases "indexOf buffer boundary")
    case None
    with "1.prems" show ?thesis by (simp add: drain_None)
  next
    case (Some idx)
    show ?thesis
    proof (cases "trim (take idx buffer) = []")
      case True
      with "1.IH"(1) [OF Some refl refl True] "1.prems" Some show ?thesis
        by (simp add: drain_Some)
    next
      case False
      with "1.IH"(2) [OF Some refl refl False] "1.prems" Some show ?thesis
        by (simp add: drain_Some)
    qed
  qed
qed

lemma readLoop_drain:
  "indexOf buffer boundary = None \<Longrightarrow>
   readLoop P aiId chunks e d buffer prev =
     ((case e of Done \<Rightarrow> None | Broken \<Rightarrow> Some ReadError),
      snd (drain P aiId (buffer @ snd (decode P d (concat chunks))) prev))"
proof (induction chunks arbitrary: d buffer prev)
  case Nil
  then show ?case by (simp add: drain_None)
next
  case (Cons v vs)
  obtain d1 s where dv: "decode P d v = (d1, s)" by (cases "decode P d v")
  obtain b1 nx where dr: "drain P aiId (buffer @ s) prev = (b1, nx)"
    by (cases "drain P aiId (buffer @ s) prev")
  have nb: "indexOf b1 boundary = None" using dr by (rule drain_rest)
  have "snd (decode P d (concat (v # vs))) = s @ snd (decode P d1 (concat vs))"
    by (simp add: decode_append dv split_beta)
  then have "drain P aiId (buffer @ snd (decode P d (concat (v # vs)))) prev
      = drain P aiId (b1 @ snd (decode P d1 (concat vs))) nx"
    using drain_append [of P aiId "buffer @ s" "snd (decode P d1 (concat vs))" prev] dr
    by simp
  with Cons.IH [OF nb, of d1 nx] dv dr show ?case by simp
qed


lemma readLoop_whole:
  "readLoop P aiId chunks e d [] prev =
     ((case e of Done \<Rightarrow> None | Broken \<Rightarrow> Some ReadError),
      snd (drain P aiId (snd (decode P d (concat chunks))) prev))"
proof -
  have "indexOf [] boundary = None" by (simp add: boundary_def)
  from readLoop_drain [OF this] show ?thesis by simp
qed

lemma cut_None: "indexOf buffer boundary = None \<Longrightarrow> cut buffer = ([], buffer)"
  by (simp add: cut.simps)

lemma cut_Some:
  "indexOf buffer boundary = Some idx \<Longrightarrow>
   cut buffer =
     ((if trim (take idx buffer) = [] then [] else [trim (take idx buffer)])
        @ fst (cut (drop (idx + 2) buffer)),
      snd (cut (drop (idx + 2) buffer)))"
  by (subst cut.simps) (simp add: Let_def split_beta)

lemma drain_cut:
  "drain P aiId buffer prev =
     (snd (cut buffer), foldl (\<lambda>m raw. processFrame P aiId raw m) prev (fst (cut buffer)))"
proof (induction P aiId buffer prev rule: drain.induct)
  case (1 P aiId buffer prev)
  show ?case
  proof (cases "indexOf buffer boundary")
    case None
    then show ?thesis by (simp add: drain_None cut_None)
  next
    case (Some idx)
    show ?thesis
    proof (cases "trim (take idx buffer) = []")
      case True
      from "1.IH"(1) [OF Some refl refl True] True show ?thesis
        unfolding drain_Some [OF Some] cut_Some [OF Some] by simp
    next
      case False
      from "1.IH"(2) [OF Some refl refl False] False show ?thesis
        unfolding drain_Some [OF Some] cut_Some [OF Some] by simp
    qed
  qed
qed

lemma readLoop_readFrames:
  "snd (readLoop P aiId chunks e d buffer prev) =
     foldl (\<lambda>m raw. processFrame P aiId raw m) prev (readFrames P chunks d buffer)"
proof (induction chunks arbitrary: d buffer prev)
  case Nil
  show ?case by simp
next
  case (Cons v vs)
  obtain d1 s where dv: "decode P d v = (d1, s)" by (cases "decode P d v")
  show ?case
    using Cons.IH [of d1 "snd (cut (buffer @ s))"] dv
    by (simp add: drain_cut split_beta)
qed

lemma cut_append:
  "cut (a @ b) = (fst (cut a) @ fst (cut (snd (cut a) @ b)), snd (cut (snd (cut a) @ b)))"
proof (induction a rule: cut.induct)
  case (1 buffer)
  show ?case
  proof (cases "indexOf buffer boundary")
    case None
    then show ?thesis by (simp add: cut_None)
  next
    case (Some idx)
    from indexOf_bound [OF Some] have len: "idx + 2 \<le> length buffer"
      by (simp add: boundary_def)
    have ab: "indexOf (buffer @ b) boundary = Some idx"
      using Some by (rule indexOf_append)
    have tk: "take idx (buffer @ b) = take idx buffer" using len by simp
    have dr: "drop (idx + 2) (buffer @ b) = drop (idx + 2) buffer @ b" using len by simp
    note ih = "1.IH" [OF Some refl]
    show ?thesis
      unfolding cut_Some [OF ab] tk dr ih cut_Some [OF Some] by simp
  qed
qed

lemma cut_rest: "indexOf (snd (cut buffer)) boundary = None"
  using drain_rest [of undefined 0 buffer "[]"] by (simp add: drain_cut)

lemma readFrames_cut:
  "indexOf buffer boundary = None \<Longrightarrow>
   readFrames P chunks d buffer = fst (cut (buffer @ snd (decode P d (concat chunks))))"
proof (induction chunks arbitrary: d buffer)
  case Nil
  then show ?case by (simp add: cut_None)
next
  case (Cons v vs)
  obtain d1 s where dv: "decode P d v = (d1, s)" by (cases "decode P d v")
  have t: "snd (decode P d (concat (v # vs))) = s @ snd (decode P d1 (concat vs))"
    by (simp add: decode_append dv split_beta)
  have "cut ((buffer @ s) @ snd (decode P d1 (concat vs))) =
      (fst (cut (buffer @ s)) @ fst (cut (snd (cut (buffer @ s)) @ snd (decode P d1 (concat vs)))),
       snd (cut (snd (cut (buffer @ s)) @ snd (decode P d1 (concat vs)))))"
    by (rule cut_append)
  with Cons.IH [OF cut_rest, of d1 "buffer @ s"] dv t show ?case
    by (simp add: split_beta)
qed

lemma readLoop_chunking:
  "concat chunks = concat chunks' \<Longrightarrow>
   readLoop P aiId chunks e d [] prev = readLoop P aiId chunks' e d [] prev"
  by (simp only: readLoop_whole)

text \<open>
  C3. Frame splitting does not depend on the chunk boundaries: a byte stream read
  in chunks of one byte and the same stream read as one chunk make the loop
  process the same frames in the same order (by \<open>readLoop_readFrames\<close> the
  transcript is these frames processed one after the other), and end with the
  same result, the same error if any and the same transcript. This holds in
  every browser (every decoder, every parser), from every transcript and for both
  ways a stream can end. The decoder's pending bytes and the text after the last
  boundary are part of the loop's state and so are carried from chunk to chunk.
\<close>

theorem chunking_invariant:
  "readFrames P (map (\<lambda>b. [b]) bytes) (decoder_init P) []
     = readFrames P [bytes] (decoder_init P) []
   \<and> readLoop P aiId (map (\<lambda>b. [b]) bytes) e (decoder_init P) [] prev
     = readLoop P aiId [bytes] e (decoder_init P) [] prev"
proof -
  have c: "concat (map (\<lambda>b. [b]) bytes) = bytes" by (induction bytes) simp_all
  have n: "indexOf [] boundary = None" by (simp add: boundary_def)
  show ?thesis
    by (simp only: readLoop_whole readFrames_cut [OF n] c concat.simps append_Nil2 simp_thms)
qed

theorem chunking_invariant_witness:
  "readFrames example (map (\<lambda>b. [b]) koreanStream) (decoder_init example) []
     = [marker @ koreanPayload]
   \<and> readLoop example 1001 (map (\<lambda>b. [b]) koreanStream) Done (decoder_init example) []
       [placeholder clk0]
     = (None, [(placeholder clk0)\<lparr>msg_text := JStr [50504]\<rparr>])"
  using chunking_invariant [of example koreanStream 1001 Done "[placeholder clk0]"]
  by (simp add: koreanStream_def koreanPayload_def example_simps drain.simps cut.simps)

subsection \<open>Token frames\<close>

lemma indexOf_boundary_at:
  "10 \<notin> set f \<Longrightarrow> indexOf (f @ boundary @ rest) boundary = Some (length f)"
  by (induction f) (simp_all add: startsWith_def boundary_def)

lemma trim_unchanged:
  "s \<noteq> [] \<Longrightarrow> \<not> is_ws (hd s) \<Longrightarrow> \<not> is_ws (last s) \<Longrightarrow> trim s = s"
proof -
  assume s: "s \<noteq> []" and h: "\<not> is_ws (hd s)" and l: "\<not> is_ws (last s)"
  from s h have "dropWhile is_ws s = s" by (cases s) simp_all
  moreover from s l have "dropWhile is_ws (rev s) = rev s"
    by (cases "rev s") (simp_all add: last_rev [symmetric] hd_rev)
  ultimately show ?thesis by (simp add: trim_def)
qed

lemma marker_facts:
  "length marker = 6" "10 \<notin> set marker" "\<not> is_ws (hd marker)" "marker \<noteq> []"
  by (simp_all add: marker_def js_def is_ws_def)

lemma drain_frame:
  assumes "wire_payload j"
  shows "drain P aiId (frame j @ rest) prev =
           drain P aiId rest (case tryParse P aiId j prev of Inl e \<Rightarrow> prev | Inr n \<Rightarrow> n)"
proof -
  from assms have j: "j \<noteq> []" "10 \<notin> set j" "\<not> is_ws (last j)"
    by (simp_all add: wire_payload_def)
  let ?f = "marker @ j"
  have nl: "10 \<notin> set ?f" using j marker_facts by simp
  have eq: "frame j @ rest = ?f @ boundary @ rest" by (simp add: frame_def)
  have idx: "indexOf (frame j @ rest) boundary = Some (length ?f)"
    unfolding eq using nl by (rule indexOf_boundary_at)
  have tk: "take (length ?f) (frame j @ rest) = ?f" unfolding eq by simp
  have dr: "drop (length ?f + 2) (frame j @ rest) = rest"
    unfolding eq by (simp add: boundary_def)
  have tr: "trim ?f = ?f"
    using j marker_facts by (intro trim_unchanged) simp_all
  have ne: "?f \<noteq> []" using j by simp
  have pf: "processFrame P aiId ?f prev =
      (case tryParse P aiId j prev of Inl e \<Rightarrow> prev | Inr n \<Rightarrow> n)"
    by (simp add: processFrame_def startsWith_def marker_facts)
  show ?thesis
    using drain_Some [OF idx, of P aiId prev] unfolding tk dr tr pf
    by (simp only: ne if_False)
qed

lemma drain_Nil: "drain P aiId [] prev = ([], prev)"
  by (simp add: drain_None boundary_def)

lemma kinds_differ:
  "js ''token'' \<noteq> js ''meta''" "js ''token'' \<noteq> js ''final''" "js ''meta'' \<noteq> js ''final''"
  "js ''final'' \<noteq> js ''token''" "js ''final'' \<noteq> js ''meta''" "js ''meta'' \<noteq> js ''token''"
  by (simp_all add: js_def)

lemma dispatch_token:
  assumes "getprop evt (js ''type'') = Inr (JStr (js ''token''))"
    and "field evt (js ''content'') = JStr c"
    and "\<forall>m\<in>set prev. msg_id m = aiId \<longrightarrow> msg_text m = JStr t"
  shows "dispatch P aiId evt prev =
     Inr (map (\<lambda>m. if msg_id m = aiId then m\<lparr>msg_text := JStr (t @ c)\<rparr> else m) prev)"
proof (cases "c = []")
  case True
  have "map (\<lambda>m. if msg_id m = aiId then m\<lparr>msg_text := JStr (t @ c)\<rparr> else m) prev = prev"
    using assms(3) True by (induction prev) simp_all
  with assms True show ?thesis by (simp add: dispatch_def kinds_differ)
next
  case False
  have "applyToken P aiId (JStr c) prev =
     map (\<lambda>m. if msg_id m = aiId then m\<lparr>msg_text := JStr (t @ c)\<rparr> else m) prev"
    using assms(3) unfolding applyToken_def by (induction prev) (simp_all add: js_or_def)
  with assms False show ?thesis by (simp add: dispatch_def)
qed

lemma retext_inv:
  "\<forall>m\<in>set (map (\<lambda>m. if msg_id m = aiId then m\<lparr>msg_text := v\<rparr> else m) prev).
     msg_id m = aiId \<longrightarrow> msg_text m = v"
proof (intro ballI impI)
  fix m assume "m \<in> set (map (\<lambda>m. if msg_id m = aiId then m\<lparr>msg_text := v\<rparr> else m) prev)"
    and i: "msg_id m = aiId"
  then obtain m0 where m0: "m = (if msg_id m0 = aiId then m0\<lparr>msg_text := v\<rparr> else m0)"
    by (auto simp only: set_map image_iff)
  show "msg_text m = v"
  proof (cases "msg_id m0 = aiId")
    case True
    with m0 show ?thesis by simp
  next
    case False
    with m0 i show ?thesis by simp
  qed
qed

lemma drain_tokens:
  assumes "\<forall>(j, c)\<in>set jcs. tokenFrame P j c"
    and "\<forall>m\<in>set prev. msg_id m = aiId \<longrightarrow> msg_text m = JStr t"
  shows "drain P aiId (concat (map (frame \<circ> fst) jcs)) prev =
     ([], map (\<lambda>m. if msg_id m = aiId then m\<lparr>msg_text := JStr (t @ concat (map snd jcs))\<rparr> else m) prev)"
  using assms
proof (induction jcs arbitrary: prev t)
  case Nil
  have m: "map (\<lambda>m. if msg_id m = aiId
      then m\<lparr>msg_text := JStr (t @ concat (map snd ([] :: (jsstring \<times> jsstring) list)))\<rparr> else m) prev = prev"
    using Nil.prems(2) by (induction prev) simp_all
  have d: "drain P aiId (concat (map (frame \<circ> fst) ([] :: (jsstring \<times> jsstring) list))) prev = ([], prev)"
    by (simp add: drain_Nil)
  show ?case by (simp only: d m)
next
  case (Cons jc jcs)
  obtain j c where jc: "jc = (j, c)" by (cases jc)
  from Cons.prems(1) jc obtain evt where
    w: "wire_payload j" and p: "json_parse P j = Some evt"
    and ty: "getprop evt (js ''type'') = Inr (JStr (js ''token''))"
    and co: "field evt (js ''content'') = JStr c"
    by (auto simp: tokenFrame_def split: option.splits)
  let ?nx = "map (\<lambda>m. if msg_id m = aiId then m\<lparr>msg_text := JStr (t @ c)\<rparr> else m) prev"
  have tp: "tryParse P aiId j prev = Inr ?nx"
    using dispatch_token [OF ty co Cons.prems(2)] p by (simp add: tryParse_def)
  have unf: "concat (map (frame \<circ> fst) (jc # jcs)) = frame j @ concat (map (frame \<circ> fst) jcs)"
    by (simp add: jc)
  have step: "drain P aiId (concat (map (frame \<circ> fst) (jc # jcs))) prev
      = drain P aiId (concat (map (frame \<circ> fst) jcs)) ?nx"
    unfolding unf drain_frame [OF w] tp by (simp only: sum.case)
  have inv: "\<forall>m\<in>set ?nx. msg_id m = aiId \<longrightarrow> msg_text m = JStr (t @ c)"
    by (rule retext_inv)
  have rest: "\<forall>(j, c)\<in>set jcs. tokenFrame P j c"
    using Cons.prems(1) by simp
  have fin: "map (\<lambda>m. if msg_id m = aiId then m\<lparr>msg_text := JStr ((t @ c) @ concat (map snd jcs))\<rparr> else m) ?nx
      = map (\<lambda>m. if msg_id m = aiId then m\<lparr>msg_text := JStr (t @ concat (map snd (jc # jcs)))\<rparr> else m) prev"
    unfolding jc by (induction prev) simp_all
  show ?case
    unfolding step Cons.IH [OF rest inv] fin ..
qed


lemma token_stream_by_id:
  assumes "\<forall>(j, c)\<in>set jcs. tokenFrame P j c"
    and "snd (decode P (decoder_init P) (concat chunks)) = concat (map (frame \<circ> fst) jcs)"
    and "\<forall>m\<in>set prev. msg_id m = aiId \<longrightarrow> msg_text m = JStr []"
  shows "readLoop P aiId chunks Done (decoder_init P) [] prev =
     (None, map (\<lambda>m. if msg_id m = aiId then m\<lparr>msg_text := JStr (concat (map snd jcs))\<rparr> else m)
              prev)"
proof -
  from drain_tokens [OF assms(1) assms(3)]
  have "snd (drain P aiId (concat (map (frame \<circ> fst) jcs)) prev) =
     map (\<lambda>m. if msg_id m = aiId then m\<lparr>msg_text := JStr (concat (map snd jcs))\<rparr> else m) prev"
    by simp
  then show ?thesis
    unfolding readLoop_whole assms(2) by simp
qed

text \<open>
  C1, as amended. A stream that consists of token frames with the contents
  \<open>c1, ..., cn\<close> and then ends, read into a transcript in which the placeholder,
  empty at that moment, is the only message with its id: when the read loop has
  processed the stream, the text of the placeholder is the concatenation of the
  contents in the order of arrival, and every other message is exactly as it
  was.
\<close>

theorem token_stream_concatenates:
  assumes "\<forall>(j, c)\<in>set jcs. tokenFrame P j c"
    and "snd (decode P (decoder_init P) (concat chunks)) = concat (map (frame \<circ> fst) jcs)"
    and "msg_id ph = aiId" and "msg_text ph = JStr []"
    and "\<forall>m\<in>set (before @ after). msg_id m \<noteq> aiId"
  shows "readLoop P aiId chunks Done (decoder_init P) [] (before @ ph # after) =
     (None, before @ ph\<lparr>msg_text := JStr (concat (map snd jcs))\<rparr> # after)"
proof -
  let ?f = "\<lambda>m. if msg_id m = aiId then m\<lparr>msg_text := JStr (concat (map snd jcs))\<rparr> else m"
  have fresh: "\<forall>m\<in>set (before @ ph # after). msg_id m = aiId \<longrightarrow> msg_text m = JStr []"
    using assms(4) assms(5) by auto
  have b: "map ?f before = before" using assms(5) by (induction before) simp_all
  have a: "map ?f after = after" using assms(5) by (induction after) simp_all
  have "map ?f (before @ ph # after) = before @ ph\<lparr>msg_text := JStr (concat (map snd jcs))\<rparr> # after"
    unfolding map_append list.map a b using assms(3) by simp
  with token_stream_by_id [OF assms(1) assms(2) fresh] show ?thesis by (simp only:)
qed

theorem token_stream_concatenates_witness:
  "readLoop example 1001 tokenChunks Done (decoder_init example) []
       ([userMessage clk0 (js ''hi'')] @ placeholder clk0 # [])
     = (None, [userMessage clk0 (js ''hi''), (placeholder clk0)\<lparr>msg_text := JStr (js ''Hello'')\<rparr>])"
proof -
  have h1: "\<forall>(j, c)\<in>set [(helPayload, js ''Hel''), (loPayload, js ''lo'')]. tokenFrame example j c"
    by (simp add: example_simps)
  have h2: "snd (decode example (decoder_init example) (concat tokenChunks))
      = concat (map (frame \<circ> fst) [(helPayload, js ''Hel''), (loPayload, js ''lo'')])"
    by (simp add: tokenChunks_def example_simps)
  have h3: "msg_id (placeholder clk0) = 1001" by (simp add: example_simps)
  have h4: "msg_text (placeholder clk0) = JStr []" by (simp add: example_simps)
  have h5: "\<forall>m\<in>set ([userMessage clk0 (js ''hi'')] @ []). msg_id m \<noteq> 1001"
    by (simp add: example_simps)
  from token_stream_concatenates [OF h1 h2 h3 h4 h5] show ?thesis
    by (simp add: example_simps)
qed

text \<open>
  C1 as stated fails: \<open>applyToken\<close> finds the placeholder by its id, and an older
  message can have the same id. A second send in the millisecond of the first
  gives its placeholder the id 1001 of the first placeholder, and the tokens of
  the second stream are written into both.
\<close>

theorem older_message_with_placeholder_id_rewritten:
  "messages (sendMessage example clk0 (Body [] Done) chat0 (js ''hi''))
     = [userMessage clk0 (js ''hi''), placeholder clk0]
   \<and> messages (sendMessage example clk0 (Body tokenChunks Done)
        (sendMessage example clk0 (Body [] Done) chat0 (js ''hi'')) (js ''again''))
     = [userMessage clk0 (js ''hi''), (placeholder clk0)\<lparr>msg_text := JStr (js ''Hello'')\<rparr>,
        userMessage clk0 (js ''again''), (placeholder clk0)\<lparr>msg_text := JStr (js ''Hello'')\<rparr>]"
  by (simp add: sendMessage_def awaitStream_def tokenChunks_def example_simps drain.simps)

subsection \<open>The final frame\<close>

lemma drain_after:
  "fst (drain P aiId T prev) = [] \<Longrightarrow>
   drain P aiId (T @ b) prev = drain P aiId b (snd (drain P aiId T prev))"
  using drain_append [of P aiId T b prev] by (simp add: split_beta)

lemma dispatch_final:
  assumes "getprop evt (js ''type'') = Inr (JStr (js ''final''))"
    and "truthy (field evt (js ''answer''))"
  shows "dispatch P aiId evt prev = Inr (applyFinal aiId evt prev)"
  using assms by (simp add: dispatch_def kinds_differ)

lemma final_after_tokens:
  "map (\<lambda>m. if msg_id m = aiId
            then m\<lparr>msg_text := v, sources := js_or s (sources m)\<rparr> else m)
      (map (\<lambda>m. if msg_id m = aiId then m\<lparr>msg_text := u\<rparr> else m) prev)
   = map (\<lambda>m. if msg_id m = aiId
            then m\<lparr>msg_text := v, sources := js_or s (sources m)\<rparr> else m) prev"
  by (induction prev) simp_all

text \<open>
  C2. A stream of token frames followed by a final frame that carries the answer
  \<open>a\<close> (the source's test: \<open>evt.answer\<close> is truthy, so a string answer is not
  empty): when the read loop has processed it, the text of the placeholder is
  \<open>a\<close>, whatever the tokens had made of it; its sources are those of the final
  frame if the frame has sources (a truthy \<open>sources\<close>), and otherwise the sources it
  had before; every message with another id is as it was.
\<close>

theorem final_frame_overrides:
  assumes "\<forall>(j, c)\<in>set jcs. tokenFrame P j c"
    and "finalFrame P jf a srcs"
    and "snd (decode P (decoder_init P) (concat chunks)) = concat (map (frame \<circ> fst) jcs) @ frame jf"
    and "\<forall>m\<in>set prev. msg_id m = aiId \<longrightarrow> msg_text m = JStr t"
  shows "readLoop P aiId chunks Done (decoder_init P) [] prev =
     (None, map (\<lambda>m. if msg_id m = aiId
                     then m\<lparr>msg_text := a,
                            sources := (if truthy srcs then srcs else sources m)\<rparr>
                     else m) prev)"
proof -
  let ?T = "concat (map (frame \<circ> fst) jcs)"
  let ?mid = "map (\<lambda>m. if msg_id m = aiId then m\<lparr>msg_text := JStr (t @ concat (map snd jcs))\<rparr> else m) prev"
  from assms(2) obtain evt where w: "wire_payload jf" and a: "truthy a"
    and p: "json_parse P jf = Some evt"
    and ty: "getprop evt (js ''type'') = Inr (JStr (js ''final''))"
    and an: "field evt (js ''answer'') = a"
    and sr: "field evt (js ''sources'') = srcs"
    by (auto simp: finalFrame_def split: option.splits)
  have T: "drain P aiId ?T prev = ([], ?mid)"
    using assms(1) assms(4) by (rule drain_tokens)
  have tp: "tryParse P aiId jf ?mid = Inr (applyFinal aiId evt ?mid)"
    using dispatch_final [OF ty] a an p by (simp add: tryParse_def)
  have "drain P aiId (?T @ frame jf) prev = drain P aiId (frame jf @ []) ?mid"
    using drain_after [of P aiId ?T prev "frame jf"] T by simp
  also have "\<dots> = drain P aiId [] (applyFinal aiId evt ?mid)"
    unfolding drain_frame [OF w] tp by (simp only: sum.case)
  also have "\<dots> = ([], applyFinal aiId evt ?mid)" by (rule drain_Nil)
  finally have "snd (drain P aiId (?T @ frame jf) prev) = applyFinal aiId evt ?mid" by simp
  also have "\<dots> = map (\<lambda>m. if msg_id m = aiId
                     then m\<lparr>msg_text := a, sources := js_or srcs (sources m)\<rparr>
                     else m) prev"
    unfolding applyFinal_def an sr by (rule final_after_tokens)
  finally show ?thesis
    unfolding readLoop_whole assms(3) by (simp add: js_or_def)
qed

theorem final_frame_overrides_witness:
  "readLoop example 1001 (tokenChunks @ [finalChunk]) Done (decoder_init example) []
       (eagerAppends clk0 [] (js ''hi''))
     = (None, [userMessage clk0 (js ''hi''), (placeholder clk0)\<lparr>msg_text := JStr (js ''Hello!'')\<rparr>])"
proof -
  have h1: "\<forall>(j, c)\<in>set [(helPayload, js ''Hel''), (loPayload, js ''lo'')]. tokenFrame example j c"
    by (simp add: example_simps)
  have h2: "finalFrame example helloPayload (JStr (js ''Hello!'')) JUndefined"
    by (simp add: example_simps)
  have h3: "snd (decode example (decoder_init example) (concat (tokenChunks @ [finalChunk])))
      = concat (map (frame \<circ> fst) [(helPayload, js ''Hel''), (loPayload, js ''lo'')]) @ frame helloPayload"
    by (simp add: tokenChunks_def finalChunk_def example_simps)
  have h4: "\<forall>m\<in>set (eagerAppends clk0 [] (js ''hi'')). msg_id m = 1001 \<longrightarrow> msg_text m = JStr []"
    by (simp add: example_simps)
  from final_frame_overrides [OF h1 h2 h3 h4] show ?thesis
    by (simp add: example_simps)
qed

subsection \<open>A payload that is not JSON\<close>

text \<open>
  C4. A frame that starts with the marker and whose payload \<^verbatim>\<open>JSON.parse\<close> rejects:
  processing it changes no message, the inner loop goes on with the rest of the
  buffer and the transcript as it was, and a stream that holds such a frame at a
  frame boundary and ends with \<open>done\<close> leaves the read loop without an error, with
  the transcript that the stream without the frame gives.
\<close>

theorem malformed_frame_dropped:
  assumes "indexOf buffer boundary = Some idx"
    and "startsWith (trim (take idx buffer)) marker"
    and "json_parse P (drop 6 (trim (take idx buffer))) = None"
    and "fst (drain P aiId T prev) = []"
    and "snd (decode P (decoder_init P) (concat chunks)) = T @ buffer"
  shows "processFrame P aiId (trim (take idx buffer)) cur = cur
       \<and> drain P aiId buffer cur = drain P aiId (drop (idx + 2) buffer) cur
       \<and> readLoop P aiId chunks Done (decoder_init P) [] prev
           = (None, snd (drain P aiId (T @ drop (idx + 2) buffer) prev))"
proof -
  have pf: "processFrame P aiId (trim (take idx buffer)) c = c" for c
    using assms(2) assms(3) by (simp add: processFrame_def tryParse_def)
  have step: "drain P aiId buffer c = drain P aiId (drop (idx + 2) buffer) c" for c
    using drain_Some [OF assms(1), of P aiId c] by (simp only: pf if_cancel)
  have "drain P aiId (T @ buffer) prev = drain P aiId (T @ drop (idx + 2) buffer) prev"
    by (simp only: drain_after [OF assms(4)] step)
  then have "readLoop P aiId chunks Done (decoder_init P) [] prev
           = (None, snd (drain P aiId (T @ drop (idx + 2) buffer) prev))"
    unfolding readLoop_whole assms(5) by simp
  with pf step show ?thesis by (simp only: simp_thms)
qed

theorem malformed_frame_dropped_witness:
  "readLoop example 1001 malformedChunks Done (decoder_init example) []
       (eagerAppends clk0 [] (js ''hi''))
     = (None, [userMessage clk0 (js ''hi''), (placeholder clk0)\<lparr>msg_text := JStr (js ''Hello'')\<rparr>])"
proof -
  have h1: "indexOf malformedRest boundary = Some 18"
    by (simp add: malformedRest_def example_simps)
  have h2: "startsWith (trim (take 18 malformedRest)) marker"
    by (simp add: malformedRest_def example_simps)
  have h3: "json_parse example (drop 6 (trim (take 18 malformedRest))) = None"
    by (simp add: malformedRest_def example_simps)
  have h4: "fst (drain example 1001 (frame helPayload) (eagerAppends clk0 [] (js ''hi''))) = []"
    by (simp add: example_simps drain.simps)
  have h5: "snd (decode example (decoder_init example) (concat malformedChunks))
      = frame helPayload @ malformedRest"
    by (simp add: malformedChunks_def malformedRest_def example_simps)
  from malformed_frame_dropped [OF h1 h2 h3 h4 h5, of "[]"] show ?thesis
    by (simp add: malformedRest_def example_simps drain.simps)
qed

subsection \<open>The marker\<close>

text \<open>
  C9, as amended. The marker is looked for at the start of the trimmed frame, not
  at the start of each of its lines: a frame that starts with the marker is parsed
  from the marker to its end as one payload, and a frame that starts with
  anything else changes no message, whatever its later lines are.
\<close>

theorem frame_needs_leading_marker:
  assumes "indexOf buffer boundary = Some idx"
  shows "drain P aiId buffer prev =
     drain P aiId (drop (idx + 2) buffer)
       (if startsWith (trim (take idx buffer)) marker
        then (case json_parse P (drop 6 (trim (take idx buffer))) of
                None \<Rightarrow> prev
              | Some evt \<Rightarrow> (case dispatch P aiId evt prev of Inl e \<Rightarrow> prev | Inr n \<Rightarrow> n))
        else prev)"
proof (cases "trim (take idx buffer) = []")
  case True
  then have "\<not> startsWith (trim (take idx buffer)) marker"
    using marker_facts(4) by (simp add: startsWith_def)
  with True drain_Some [OF assms, of P aiId prev] show ?thesis by simp
next
  case False
  with drain_Some [OF assms, of P aiId prev] show ?thesis
    by (simp add: processFrame_def tryParse_def split: option.splits)
qed

theorem frame_needs_leading_marker_witness:
  "drain example 1001 eventFrame [placeholder clk0] = ([], [placeholder clk0])"
proof -
  have h: "indexOf eventFrame boundary = Some 53"
    by (simp add: eventFrame_def example_simps)
  from frame_needs_leading_marker [OF h, of example 1001 "[placeholder clk0]"] show ?thesis
    by (simp add: eventFrame_def example_simps drain.simps)
qed

text \<open>
  C9 as stated fails: a frame with an \<^verbatim>\<open>event:\<close> line before a \<^verbatim>\<open>data:\<close> line leaves the
  placeholder empty, although the payload of the \<^verbatim>\<open>data:\<close> line is a token event
  that, in a frame of its own, is applied.
\<close>

theorem marker_line_not_applied:
  "snd (drain example 1001 eventFrame [placeholder clk0]) = [placeholder clk0]
   \<and> snd (drain example 1001 (frame helPayload) [placeholder clk0])
       = [(placeholder clk0)\<lparr>msg_text := JStr (js ''Hel'')\<rparr>]"
  by (simp add: eventFrame_def example_simps drain.simps)

subsection \<open>The end of the stream\<close>

lemma drain_suffix:
  "drain P aiId buffer prev = (rest, nx) \<Longrightarrow> \<exists>pre. buffer = pre @ rest"
proof (induction P aiId buffer prev rule: drain.induct)
  case (1 P aiId buffer prev)
  show ?case
  proof (cases "indexOf buffer boundary")
    case None
    with "1.prems" show ?thesis by (simp add: drain_None)
  next
    case (Some idx)
    have "\<exists>pre. drop (idx + 2) buffer = pre @ rest"
    proof (cases "trim (take idx buffer) = []")
      case True
      with "1.IH"(1) [OF Some refl refl True] "1.prems" Some show ?thesis
        by (simp add: drain_Some)
    next
      case False
      with "1.IH"(2) [OF Some refl refl False] "1.prems" Some show ?thesis
        by (simp add: drain_Some)
    qed
    then obtain pre where "drop (idx + 2) buffer = pre @ rest" ..
    then have "buffer = (take (idx + 2) buffer @ pre) @ rest"
      by (metis append_assoc append_take_drop_id)
    then show ?thesis ..
  qed
qed

lemma indexOf_occurs: "indexOf (x @ boundary @ y) boundary \<noteq> None"
  by (induction x) (simp_all add: startsWith_def boundary_def)

lemma rest_after_boundary:
  assumes "T @ boundary = pre @ rest" and "indexOf rest boundary = None"
  shows "rest = [] \<or> rest = [10]"
proof (cases "length rest \<ge> 2")
  case True
  have "rest = take (length rest - 2) rest @ drop (length rest - 2) rest" by simp
  moreover have "drop (length rest - 2) rest = boundary"
  proof -
    have "drop (length rest - 2) rest = drop (length (pre @ rest) - 2) (pre @ rest)"
      using True by simp
    also have "\<dots> = drop (length (T @ boundary) - 2) (T @ boundary)"
      by (simp only: assms(1))
    also have "\<dots> = boundary" by (simp add: boundary_def)
    finally show ?thesis .
  qed
  ultimately have "rest = take (length rest - 2) rest @ boundary @ []" by simp
  then have "indexOf rest boundary \<noteq> None" by (metis indexOf_occurs)
  with assms(2) show ?thesis by contradiction
next
  case False
  then consider "rest = []" | c where "rest = [c]"
    by (cases rest; cases "tl rest") auto
  then show ?thesis
  proof cases
    case 1
    then show ?thesis by simp
  next
    case 2
    with assms(1) have "last (T @ boundary) = c"
      by (metis last_appendR last_snoc append_Nil list.distinct(1) last.simps)
    then have "c = 10" by (simp add: boundary_def)
    with 2 show ?thesis by simp
  qed
qed

lemma drain_tail:
  assumes "indexOf tail boundary = None" and "rest = [] \<or> rest = [10]"
  shows "snd (drain P aiId (rest @ tail) nx) = nx"
proof -
  from assms(2) show ?thesis
  proof
    assume "rest = []"
    with assms(1) show ?thesis by (simp add: drain_None)
  next
    assume r: "rest = [10]"
    show ?thesis
    proof (cases tail)
      case Nil
      with r show ?thesis by (simp add: drain_None boundary_def startsWith_def)
    next
      case (Cons c cs)
      show ?thesis
      proof (cases "c = 10")
        case True
        have i: "indexOf (rest @ tail) boundary = Some 0"
          using r Cons True by (simp add: boundary_def startsWith_def)
        have n: "indexOf cs boundary = None"
          using assms(1) Cons by (simp split: if_splits)
        have "drain P aiId (rest @ tail) nx = drain P aiId cs nx"
          using drain_Some [OF i, of P aiId nx] r Cons by (simp add: trim_def)
        with n show ?thesis by (simp add: drain_None)
      next
        case False
        have "indexOf (rest @ tail) boundary = None"
          using r Cons False assms(1) by (simp add: boundary_def startsWith_def)
        then show ?thesis by (simp add: drain_None)
      qed
    qed
  qed
qed

text \<open>
  C10. When the reader reports \<open>done\<close>, the text after the last boundary is dropped
  without being processed: a stream whose text ends, after a boundary, in a tail
  with no boundary in it gives the transcript of the stream cut off at that
  boundary, whatever the tail is.
\<close>

theorem unterminated_tail_discarded:
  assumes "indexOf tail boundary = None"
    and "snd (decode P (decoder_init P) (concat chunks)) = T @ boundary @ tail"
  shows "readLoop P aiId chunks Done (decoder_init P) [] prev
     = (None, snd (drain P aiId (T @ boundary) prev))"
proof -
  obtain rest nx where d: "drain P aiId (T @ boundary) prev = (rest, nx)"
    by (cases "drain P aiId (T @ boundary) prev")
  from drain_suffix [OF d] obtain pre where "T @ boundary = pre @ rest" ..
  moreover have "indexOf rest boundary = None" using d by (rule drain_rest)
  ultimately have r: "rest = [] \<or> rest = [10]" by (rule rest_after_boundary)
  have "drain P aiId ((T @ boundary) @ tail) prev = drain P aiId (rest @ tail) nx"
    using drain_append [of P aiId "T @ boundary" tail prev] d by simp
  then have "snd (drain P aiId (T @ boundary @ tail) prev) = nx"
    using drain_tail [OF assms(1) r, of P aiId nx] by simp
  then show ?thesis unfolding readLoop_whole assms(2) using d by simp
qed

theorem unterminated_tail_discarded_witness:
  "readLoop example 1001 unterminatedChunks Done (decoder_init example) []
       (eagerAppends clk0 [] (js ''hi''))
     = (None, [userMessage clk0 (js ''hi''), (placeholder clk0)\<lparr>msg_text := JStr (js ''Hel'')\<rparr>])"
proof -
  have h1: "indexOf (marker @ loPayload) boundary = None"
    by (simp add: example_simps)
  have h2: "snd (decode example (decoder_init example) (concat unterminatedChunks))
      = (marker @ helPayload) @ boundary @ (marker @ loPayload)"
    by (simp add: unterminatedChunks_def example_simps)
  from unterminated_tail_discarded [OF h1 h2] show ?thesis
    by (simp add: example_simps drain.simps)
qed

subsection \<open>Ids\<close>

lemma applyToken_ids: "map msg_id (applyToken P aiId v prev) = map msg_id prev"
  unfolding applyToken_def by (induction prev) simp_all

lemma applyMeta_ids: "map msg_id (applyMeta aiId evt prev) = map msg_id prev"
  unfolding applyMeta_def by (induction prev) simp_all

lemma applyFinal_ids: "map msg_id (applyFinal aiId evt prev) = map msg_id prev"
  unfolding applyFinal_def by (induction prev) simp_all

lemma dispatch_ids:
  "dispatch P aiId evt prev = Inr nx \<Longrightarrow> map msg_id nx = map msg_id prev"
  unfolding dispatch_def
  by (auto simp: applyToken_ids applyMeta_ids applyFinal_ids split: sum.splits if_splits)

lemma processFrame_ids: "map msg_id (processFrame P aiId raw prev) = map msg_id prev"
  unfolding processFrame_def tryParse_def
  by (auto simp: dispatch_ids split: sum.splits option.splits)

lemma drain_ids: "map msg_id (snd (drain P aiId buffer prev)) = map msg_id prev"
proof (induction P aiId buffer prev rule: drain.induct)
  case (1 P aiId buffer prev)
  show ?case
  proof (cases "indexOf buffer boundary")
    case None
    then show ?thesis by (simp add: drain_None)
  next
    case (Some idx)
    show ?thesis
    proof (cases "trim (take idx buffer) = []")
      case True
      with "1.IH"(1) [OF Some refl refl True] Some show ?thesis
        by (simp add: drain_Some)
    next
      case False
      with "1.IH"(2) [OF Some refl refl False] Some show ?thesis
        by (simp add: drain_Some processFrame_ids)
    qed
  qed
qed

lemma readLoop_ids:
  "map msg_id (snd (readLoop P aiId chunks e d buffer prev)) = map msg_id prev"
proof (induction chunks arbitrary: d buffer prev)
  case Nil
  show ?case by simp
next
  case (Cons v vs)
  obtain d1 s where dv: "decode P d v = (d1, s)" by (cases "decode P d v")
  obtain b1 nx where dr: "drain P aiId (buffer @ s) prev = (b1, nx)"
    by (cases "drain P aiId (buffer @ s) prev")
  have "map msg_id nx = map msg_id prev"
    using drain_ids [of P aiId "buffer @ s" prev] dr by simp
  with Cons.IH [of d1 b1 nx] dv dr show ?case by simp
qed

lemma readLoop_error:
  "fst (readLoop P aiId chunks e d buffer prev) = (case e of Done \<Rightarrow> None | Broken \<Rightarrow> Some ReadError)"
  by (induction chunks arbitrary: d buffer prev) (simp_all add: split_beta)

lemma sendMessage_ids:
  assumes "trim txt \<noteq> []"
  shows "map msg_id (messages (sendMessage P clk res st txt)) =
     map msg_id (messages st) @ [now_user clk, now_ai clk + 1]
       @ (if fails res then [now_error clk + 1] else [])"
proof (cases res)
  case Rejected
  with assms show ?thesis
    by (simp add: sendMessage_def awaitStream_def eagerAppends_def userMessage_def
        placeholder_def errorMessage_def)
next
  case NoBody
  with assms show ?thesis
    by (simp add: sendMessage_def awaitStream_def eagerAppends_def userMessage_def
        placeholder_def errorMessage_def)
next
  case (Body chunks e)
  let ?start = "eagerAppends clk (messages st) txt"
  obtain err cur where r: "readLoop P (now_ai clk + 1) chunks e (decoder_init P) [] ?start = (err, cur)"
    by (cases "readLoop P (now_ai clk + 1) chunks e (decoder_init P) [] ?start")
  have ids: "map msg_id cur = map msg_id ?start"
    using readLoop_ids [of P "now_ai clk + 1" chunks e "decoder_init P" "[]" ?start] r by simp
  have er: "err = (case e of Done \<Rightarrow> None | Broken \<Rightarrow> Some ReadError)"
    using readLoop_error [of P "now_ai clk + 1" chunks e "decoder_init P" "[]" ?start] r by simp
  have st: "map msg_id ?start = map msg_id (messages st) @ [now_user clk, now_ai clk + 1]"
    by (simp add: eagerAppends_def userMessage_def placeholder_def)
  show ?thesis
    using assms Body r ids er st
    by (cases e) (simp_all add: sendMessage_def awaitStream_def errorMessage_def)
qed

text \<open>
  C6, as amended. After a send whose stream ends without a transport error no two
  messages share an id, provided that the ids already in the transcript are
  pairwise distinct and smaller than the clock reading taken for the user
  message, and that the clock has not gone backwards when the reading for the
  placeholder is taken. Every id is then at most the placeholder's, so the next
  such send finds the same situation; frames never change an id.
\<close>

theorem ids_distinct_after_send:
  assumes "distinct (map msg_id (messages st))"
    and "\<forall>m\<in>set (messages st). msg_id m < now_user clk"
    and "now_user clk \<le> now_ai clk"
  shows "distinct (map msg_id (messages (sendMessage P clk (Body chunks Done) st txt)))
       \<and> (\<forall>m\<in>set (messages (sendMessage P clk (Body chunks Done) st txt)).
             msg_id m \<le> now_ai clk + 1)"
proof (cases "trim txt = []")
  case True
  then have "sendMessage P clk (Body chunks Done) st txt = st" by (simp add: sendMessage_def)
  with assms show ?thesis by fastforce
next
  case False
  let ?r = "messages (sendMessage P clk (Body chunks Done) st txt)"
  have ids: "map msg_id ?r = map msg_id (messages st) @ [now_user clk, now_ai clk + 1]"
    using sendMessage_ids [OF False, of P clk "Body chunks Done" st] by simp
  have old: "\<forall>i\<in>set (map msg_id (messages st)). i < now_user clk"
    using assms(2) by simp
  have "distinct (map msg_id (messages st) @ [now_user clk, now_ai clk + 1])"
    using assms(1) assms(3) old by fastforce
  moreover have "\<forall>i\<in>set (map msg_id (messages st) @ [now_user clk, now_ai clk + 1]). i \<le> now_ai clk + 1"
    using assms(3) old by fastforce
  ultimately have "distinct (map msg_id ?r) \<and> (\<forall>i\<in>set (map msg_id ?r). i \<le> now_ai clk + 1)"
    by (simp only: ids)
  then show ?thesis by simp
qed

theorem ids_distinct_after_send_witness:
  "map msg_id (messages (sendMessage example clk0 (Body [] Done) chat0 (js ''hi''))) = [1000, 1001]
   \<and> distinct (map msg_id (messages (sendMessage example clk2 (Body tokenChunks Done)
        (sendMessage example clk0 (Body [] Done) chat0 (js ''hi'')) (js ''again''))))
   \<and> map msg_id (messages (sendMessage example clk2 (Body tokenChunks Done)
        (sendMessage example clk0 (Body [] Done) chat0 (js ''hi'')) (js ''again'')))
       = [1000, 1001, 1002, 1004]"
proof -
  let ?st = "sendMessage example clk0 (Body [] Done) chat0 (js ''hi'')"
  have m: "messages ?st = [userMessage clk0 (js ''hi''), placeholder clk0]"
    by (simp add: sendMessage_def awaitStream_def example_simps)
  have h1: "distinct (map msg_id (messages ?st))" unfolding m by (simp add: example_simps)
  have h2: "\<forall>m\<in>set (messages ?st). msg_id m < now_user clk2"
    unfolding m by (simp add: clk2_def example_simps)
  have h3: "now_user clk2 \<le> now_ai clk2" by (simp add: clk2_def)
  have t: "trim (js ''again'') \<noteq> []" by (simp add: example_simps)
  from ids_distinct_after_send [OF h1 h2 h3, of example tokenChunks "js ''again''"]
    sendMessage_ids [OF t, of example clk2 "Body tokenChunks Done" ?st]
  show ?thesis unfolding m by (simp add: clk2_def example_simps)
qed

text \<open>
  C6 as stated fails: timestamps are the only source of ids, so a second send one
  millisecond after the first gives its user message the id of the first
  placeholder.
\<close>

theorem ids_collide_one_tick_later:
  "map msg_id (messages (sendMessage example clk1 (Body [] Done)
      (sendMessage example clk0 (Body [] Done) chat0 (js ''hi'')) (js ''again'')))
     = [1000, 1001, 1001, 1002]
   \<and> \<not> distinct (map msg_id (messages (sendMessage example clk1 (Body [] Done)
      (sendMessage example clk0 (Body [] Done) chat0 (js ''hi'')) (js ''again''))))"
  by (simp add: sendMessage_def awaitStream_def example_simps)

subsection \<open>A failed connection\<close>

text \<open>
  What holds of a connection that fails before any byte arrives: the transcript
  is the old one with the user message, the placeholder, still empty, and one
  error message after them.
\<close>

lemma connection_error_appends_message:
  assumes "trim txt \<noteq> []" and "res = Rejected \<or> res = NoBody"
  shows "messages (sendMessage P clk res st txt)
     = messages st @ [userMessage clk txt, placeholder clk, errorMessage clk]"
  using assms by (auto simp: sendMessage_def awaitStream_def eagerAppends_def)

text \<open>
  C5. The error message is to have an id distinct from the placeholder's. Both
  ids are \<^verbatim>\<open>Date.now() + 1\<close>: when the connection fails while the clock still shows
  the millisecond in which the placeholder was made, the two messages share the
  id 1001.
\<close>

theorem error_id_is_placeholder_id:
  "messages (sendMessage example clk0 Rejected chat0 (js ''hi''))
     = [userMessage clk0 (js ''hi''), placeholder clk0, errorMessage clk0]
   \<and> messages (sendMessage example clk0 NoBody chat0 (js ''hi''))
     = [userMessage clk0 (js ''hi''), placeholder clk0, errorMessage clk0]
   \<and> msg_id (placeholder clk0) = 1001 \<and> msg_id (errorMessage clk0) = 1001"
  by (simp add: sendMessage_def awaitStream_def example_simps)

subsection \<open>Sending\<close>

lemma readAwaits_last:
  "last (readAwaits P aiId chunks d buffer prev) = snd (readLoop P aiId chunks e d buffer prev)"
proof (induction chunks arbitrary: d buffer prev)
  case Nil
  show ?case by simp
next
  case (Cons v vs)
  obtain d1 s where dv: "decode P d v = (d1, s)" by (cases "decode P d v")
  obtain b1 nx where dr: "drain P aiId (buffer @ s) prev = (b1, nx)"
    by (cases "drain P aiId (buffer @ s) prev")
  have "readAwaits P aiId vs d1 b1 nx \<noteq> []" by (cases vs) (simp_all add: split_beta)
  with Cons.IH [of d1 b1 nx] dv dr show ?case by simp
qed

lemma readAwaits_first: "hd (readAwaits P aiId chunks d buffer prev) = prev"
  by (cases chunks) simp_all

lemma sendAwaits_last:
  assumes "trim txt \<noteq> []"
  shows "messages (last (sendAwaits P clk (Body chunks e) st txt))
     = snd (readLoop P (now_ai clk + 1) chunks e (decoder_init P) []
              (eagerAppends clk (messages st) txt))"
proof -
  let ?tr = "readAwaits P (now_ai clk + 1) chunks (decoder_init P) []
               (eagerAppends clk (messages st) txt)"
  have ne: "?tr \<noteq> []" by (cases chunks) (simp_all add: split_beta)
  then have "messages (last (sendAwaits P clk (Body chunks e) st txt)) = last ?tr"
    using assms by (simp add: sendAwaits_def last_map)
  then show ?thesis by (simp only: readAwaits_last [of P _ chunks _ _ _ e])
qed

text \<open>
  C8. For a query that is not blank: when \<open>sendMessage\<close> waits for \<^verbatim>\<open>fetch\<close>, whatever
  the response is going to be, the transcript already is the old one with the
  user message and then the placeholder, empty and of role assistant, appended.
  The stream is read into that transcript, so its frames find the placeholder;
  a connection that gives no stream leaves both messages in the transcript, with
  the error message after them; and when the stream ends without a boundary in
  its text (no frame at all), the final transcript is exactly the one of the
  appends: the placeholder is there with its empty text and no error message
  follows.
\<close>

theorem eager_appends_then_stream:
  assumes "trim txt \<noteq> []"
  shows "hd (sendAwaits P clk res st txt)
       = \<lparr>messages = messages st @ [userMessage clk txt, placeholder clk], isLoading = True\<rparr>
     \<and> msg_text (userMessage clk txt) = JStr txt \<and> role (userMessage clk txt) = User
     \<and> msg_text (placeholder clk) = JStr [] \<and> role (placeholder clk) = Assistant
     \<and> messages (sendMessage P clk (Body chunks e) st txt)
          = snd (readLoop P (now_ai clk + 1) chunks e (decoder_init P) []
                   (messages st @ [userMessage clk txt, placeholder clk]))
              @ (if e = Broken then [errorMessage clk] else [])
     \<and> messages (sendMessage P clk Rejected st txt)
          = messages st @ [userMessage clk txt, placeholder clk, errorMessage clk]
     \<and> messages (sendMessage P clk NoBody st txt)
          = messages st @ [userMessage clk txt, placeholder clk, errorMessage clk]
     \<and> (indexOf (snd (decode P (decoder_init P) (concat chunks))) boundary = None \<longrightarrow>
          sendMessage P clk (Body chunks Done) st txt
            = \<lparr>messages = messages st @ [userMessage clk txt, placeholder clk], isLoading = False\<rparr>)"
proof -
  have a: "eagerAppends clk (messages st) txt = messages st @ [userMessage clk txt, placeholder clk]"
    by (simp add: eagerAppends_def)
  have h: "hd (sendAwaits P clk res st txt)
       = \<lparr>messages = messages st @ [userMessage clk txt, placeholder clk], isLoading = True\<rparr>"
    using assms by (simp add: sendAwaits_def a)
  have er: "fst (readLoop P aiId chunks e d b prev) = (if e = Broken then Some ReadError else None)"
    for aiId d b prev
    using readLoop_error [of P aiId chunks e d b prev] by (cases e) simp_all
  have b: "messages (sendMessage P clk (Body chunks e) st txt)
          = snd (readLoop P (now_ai clk + 1) chunks e (decoder_init P) []
                   (messages st @ [userMessage clk txt, placeholder clk]))
              @ (if e = Broken then [errorMessage clk] else [])"
    using assms er [of "now_ai clk + 1" "decoder_init P" "[]" "messages st @ [userMessage clk txt, placeholder clk]"]
    by (simp add: sendMessage_def awaitStream_def a split_beta)
  have r: "messages (sendMessage P clk Rejected st txt)
            = messages st @ [userMessage clk txt, placeholder clk, errorMessage clk]"
    using assms by (simp add: sendMessage_def awaitStream_def a)
  have n: "messages (sendMessage P clk NoBody st txt)
            = messages st @ [userMessage clk txt, placeholder clk, errorMessage clk]"
    using assms by (simp add: sendMessage_def awaitStream_def a)
  have c: "sendMessage P clk (Body chunks Done) st txt
              = \<lparr>messages = messages st @ [userMessage clk txt, placeholder clk], isLoading = False\<rparr>"
    if "indexOf (snd (decode P (decoder_init P) (concat chunks))) boundary = None"
    using assms that
    by (simp add: sendMessage_def awaitStream_def readLoop_whole drain_None a)
  from h b r n c show ?thesis by (simp add: userMessage_def placeholder_def)
qed

theorem eager_appends_then_stream_witness:
  "hd (sendAwaits example clk0 Rejected chat0 (js ''hi''))
     = \<lparr>messages = [userMessage clk0 (js ''hi''), placeholder clk0], isLoading = True\<rparr>
   \<and> sendMessage example clk0 (Body zeroFrameChunks Done) chat0 (js ''hi'')
     = \<lparr>messages = [userMessage clk0 (js ''hi''), placeholder clk0], isLoading = False\<rparr>
   \<and> messages (sendMessage example clk0 (Body tokenChunks Done) chat0 (js ''hi''))
     = [userMessage clk0 (js ''hi''), (placeholder clk0)\<lparr>msg_text := JStr (js ''Hello'')\<rparr>]"
proof -
  have h: "trim (js ''hi'') \<noteq> []" by (simp add: example_simps)
  have z: "indexOf (snd (decode example (decoder_init example) (concat zeroFrameChunks))) boundary = None"
    by (simp add: zeroFrameChunks_def example_simps)
  from eager_appends_then_stream [OF h, of example clk0 Rejected chat0 zeroFrameChunks Done] z
    eager_appends_then_stream [OF h, of example clk0 Rejected chat0 tokenChunks Done]
  show ?thesis by (simp add: chat0_def tokenChunks_def example_simps drain.simps)
qed

subsection \<open>The session id across initializations\<close>

text \<open>
  What holds of the initializer: once it has returned a non-empty id, every later
  call on the storage it left returns the same id and leaves the storage as it
  is, whatever the sources of new ids are then; and the id is not empty when the
  storage held a non-empty one or the new id is not empty.
\<close>

lemma initSessionId_stable:
  assumes "fst (initSessionId src ls) \<noteq> []"
  shows "initSessionId src2 (snd (initSessionId src ls)) = initSessionId src ls"
proof (cases "ls storageKey")
  case None
  with assms show ?thesis by (cases "newSessionId src") (simp_all add: initSessionId_def)
next
  case (Some existing)
  with assms show ?thesis
    by (cases existing; cases "newSessionId src") (simp_all add: initSessionId_def)
qed

lemma initSessionId_uuid_nonempty:
  "ls storageKey = None \<Longrightarrow> randomUUID src = Some u \<Longrightarrow> u \<noteq> [] \<Longrightarrow>
   fst (initSessionId src ls) = u"
  by (simp add: initSessionId_def newSessionId_def)

text \<open>
  C7. The session id is to be non-empty and to stay the same. Where the browser
  has no \<^verbatim>\<open>crypto.randomUUID\<close> and \<^verbatim>\<open>Math.random()\<close> returns 0, \<^verbatim>\<open>toString(36)\<close> is
  \<^verbatim>\<open>'0'\<close> and \<^verbatim>\<open>slice(2)\<close> of it is empty: the initializer stores and returns the
  empty string, and the next call, which takes an empty stored value for none,
  returns another id.
\<close>

theorem zero_draw_gives_empty_session_id:
  "fst (initSessionId zeroDraw Map.empty) = []
   \<and> snd (initSessionId zeroDraw Map.empty) storageKey = Some []
   \<and> fst (initSessionId laterDraw (snd (initSessionId zeroDraw Map.empty))) = js ''k3x9''"
  by (simp add: initSessionId_def newSessionId_def zeroDraw_def laterDraw_def storageKey_def js_def)

end
